theory Spec2Isabelle
  imports Main "HOL-Library.Log_Nat"
begin

section \<open>The float64 values of the program\<close>

text \<open>
  Every number of \<^verbatim>\<open>logmap.go\<close> is a Go \<^verbatim>\<open>float64\<close>: an IEEE 754 binary64 value. A value
  is a NaN, an infinity with its sign, or a finite number given by its sign (\<open>True\<close> is
  negative) and its magnitude, a non-negative rational. Both zeros exist: \<open>Finite False 0\<close>
  and \<open>Finite True 0\<close>.
\<close>

datatype float64 = NaN | Infinity bool | Finite bool rat

text \<open>
  \<open>ilog2 q\<close> is the binary exponent of a positive rational: the \<open>e\<close> with
  \<open>2^e \<le> q < 2^(e+1)\<close>. It is computed from the bit lengths of numerator and
  denominator, which leave two candidates.
\<close>

definition ilog2 :: "rat \<Rightarrow> int" where
  "ilog2 q = (let (a, b) = quotient_of q; d = bitlen a - bitlen b
              in if 2 powi d \<le> q then d else d - 1)"

text \<open>
  The exponent used for rounding: binary64 has 53 significant bits and its smallest
  normal exponent is \<open>-1022\<close>; below it the spacing stays that of the subnormal numbers.
\<close>

definition expo :: "rat \<Rightarrow> int" where
  "expo q = max (ilog2 q) (- 1022)"

definition ulp :: "rat \<Rightarrow> rat" where
  "ulp q = 2 powi (expo q - 52)"

text \<open>Rounding to the nearest integer, ties to the even one.\<close>

definition rne :: "rat \<Rightarrow> int" where
  "rne t = (let f = \<lfloor>t\<rfloor>; d = t - of_int f
            in if d < 1 / 2 then f else if 1 / 2 < d then f + 1
               else if even f then f else f + 1)"

text \<open>
  Rounding a non-negative magnitude to the nearest multiple of its unit in the last place
  (round to nearest, ties to even: the rounding of every Go float64 operation), and
  the overflow to an infinity once the rounded magnitude reaches \<open>2^1024\<close>.
\<close>

definition round_mag :: "rat \<Rightarrow> rat" where
  "round_mag q = (if q = 0 then 0 else of_int (rne (q / ulp q)) * ulp q)"

definition round64 :: "bool \<Rightarrow> rat \<Rightarrow> float64" where
  "round64 s q = (let m = round_mag q in if 2 ^ 1024 \<le> m then Infinity s else Finite s m)"

text \<open>The signed value of a finite number.\<close>

definition sval :: "bool \<Rightarrow> rat \<Rightarrow> rat" where
  "sval s m = (if s then - m else m)"

text \<open>The Go operator \<^verbatim>\<open>*\<close> on float64.\<close>

fun fmul :: "float64 \<Rightarrow> float64 \<Rightarrow> float64" where
  "fmul NaN _ = NaN"
| "fmul _ NaN = NaN"
| "fmul (Infinity s) (Infinity t) = Infinity (s \<noteq> t)"
| "fmul (Infinity s) (Finite t n) = (if n = 0 then NaN else Infinity (s \<noteq> t))"
| "fmul (Finite s m) (Infinity t) = (if m = 0 then NaN else Infinity (s \<noteq> t))"
| "fmul (Finite s m) (Finite t n) = round64 (s \<noteq> t) (m * n)"

text \<open>
  The Go operator \<^verbatim>\<open>-\<close> on float64. An exact difference of zero is \<open>+0\<close>, except
  \<open>(-0) - (+0) = -0\<close>.
\<close>

fun fsub :: "float64 \<Rightarrow> float64 \<Rightarrow> float64" where
  "fsub NaN _ = NaN"
| "fsub _ NaN = NaN"
| "fsub (Infinity s) (Infinity t) = (if s = t then NaN else Infinity s)"
| "fsub (Infinity s) (Finite t n) = Infinity s"
| "fsub (Finite s m) (Infinity t) = Infinity (\<not> t)"
| "fsub (Finite s m) (Finite t n) =
     (let v = sval s m - sval t n
      in if v = 0 then Finite (s \<and> \<not> t) 0 else round64 (v < 0) \<bar>v\<bar>)"

text \<open>The conversion \<^verbatim>\<open>float64(i)\<close> of a loop index, and an untyped constant as float64.\<close>

definition float64_of_nat :: "nat \<Rightarrow> float64" where
  "float64_of_nat i = round64 False (of_nat i)"

definition const64 :: "rat \<Rightarrow> float64" where
  "const64 q = round64 (q < 0) \<bar>q\<bar>"

text \<open>
  The values of the datatype that are float64 values: a finite magnitude is not negative,
  is left unchanged by the rounding and is below \<open>2^1024\<close>.
\<close>

fun is_float64 :: "float64 \<Rightarrow> bool" where
  "is_float64 (Finite s m) = (0 \<le> m \<and> round_mag m = m \<and> m < 2 ^ 1024)"
| "is_float64 _ = True"

text \<open>
  The Go comparison \<^verbatim>\<open>lo <= x && x <= hi\<close> of a float64 with two rational bounds: false
  on a NaN and on the infinities; the zero \<open>-0\<close> compares equal to 0.
\<close>

fun between :: "rat \<Rightarrow> rat \<Rightarrow> float64 \<Rightarrow> bool" where
  "between lo hi (Finite s m) = (lo \<le> sval s m \<and> sval s m \<le> hi)"
| "between lo hi _ = False"



section \<open>The constants\<close>

definition Iterations :: nat where
  "Iterations = 100"

definition Start :: float64 where
  "Start = const64 (1 / 10)"

definition DefaultRate :: string where
  "DefaultRate = ''3.5''"

section \<open>The sequence generator\<close>

text \<open>
  \<^verbatim>\<open>logisticMap\<close>: the loop \<^verbatim>\<open>for i := 0; i < Iterations; i++\<close> with its state, the
  current \<open>x\<close> and the array \<open>series\<close>, which Go initialises to zeros. The product
  \<^verbatim>\<open>rate * x * (1 - x)\<close> associates to the left.
\<close>

function logisticMap_loop :: "float64 \<Rightarrow> nat \<Rightarrow> float64 \<Rightarrow> float64 list \<Rightarrow> float64 list" where
  "logisticMap_loop rate i x series =
     (if i < Iterations
      then let x' = fmul (fmul rate x) (fsub (Finite False 1) x)
           in logisticMap_loop rate (i + 1) x' (series[i := x'])
      else series)"
  by pat_completeness auto
termination
  by (relation "measure (\<lambda>(rate, i, x, series). Iterations - i)") auto

declare logisticMap_loop.simps [simp del]

definition logisticMap :: "float64 \<Rightarrow> float64 list" where
  "logisticMap rate = logisticMap_loop rate 0 Start (replicate Iterations (Finite False 0))"

text \<open>
  The recurrence as the specification writes it: \<open>x0 = 0.1\<close> and
  \<open>x(n+1) = r * x(n) * (1 - x(n))\<close>, in float64 arithmetic.
\<close>

fun spec_iterate :: "float64 \<Rightarrow> nat \<Rightarrow> float64" where
  "spec_iterate r 0 = Start"
| "spec_iterate r (Suc n) =
     fmul (fmul r (spec_iterate r n)) (fsub (Finite False 1) (spec_iterate r n))"

section \<open>The spectral transform\<close>

text \<open>
  A \<^verbatim>\<open>complex128\<close> is a pair of float64: real and imaginary part; Go's \<^verbatim>\<open>real(c)\<close> is the
  first component.

  \<^verbatim>\<open>cmplx.Rect(r, 0)\<close>, the only call of the polar constructor in the program. The library
  computes \<^verbatim>\<open>s, c := math.Sincos(0)\<close>, which is \<open>(0, 1)\<close>, and returns
  \<^verbatim>\<open>complex(r*c, r*s)\<close>.
\<close>

type_synonym complex128 = "float64 \<times> float64"

definition Rect0 :: "float64 \<Rightarrow> complex128" where
  "Rect0 r = (fmul r (Finite False 1), fmul r (Finite False 0))"

datatype panic = IndexOutOfRange

text \<open>
  The functions of other packages that the program calls are parameters of the model:
  \<^verbatim>\<open>strconv.ParseFloat(s, 64)\<close>, \<^verbatim>\<open>fft.FFT\<close> of go-dsp, \<^verbatim>\<open>json.Marshal\<close> (\<open>None\<close> is
  its error), \<^verbatim>\<open>Chart.Render(chart.SVG, &buf)\<close> of go-chart (the bytes it appends to the
  buffer), \<^verbatim>\<open>tmpl.Execute\<close> (the chunks it writes to the response, in order, and whether
  it returns an error) and \<^verbatim>\<open>fmt.Sprintf("%.2f", rate)\<close>.
\<close>

datatype NumError = ErrSyntax | ErrRange

record payload =
  Time :: "float64 list"
  Frequency :: "float64 list"

record ContinuousSeries =
  XValues :: "float64 list"
  YValues :: "float64 list"

record Chart =
  Width :: nat
  Height :: nat
  Series :: "ContinuousSeries list"

record tmpl_context =
  Rate :: string
  Body :: string

record libs =
  ParseFloat :: "string \<Rightarrow> NumError + float64"
  FFT :: "complex128 list \<Rightarrow> complex128 list"
  Marshal :: "payload \<Rightarrow> string option"
  Render :: "Chart \<Rightarrow> string"
  Execute :: "tmpl_context \<Rightarrow> string list \<times> bool"
  Sprintf_2f :: "float64 \<Rightarrow> string"

text \<open>
  The second loop of \<^verbatim>\<open>frequencyTransform\<close>, \<^verbatim>\<open>for i := range frequencies\<close>, stores into
  the array \<open>output\<close> of \<open>Iterations\<close> elements: an index beyond the array panics.
\<close>

function output_loop :: "complex128 list \<Rightarrow> nat \<Rightarrow> float64 list \<Rightarrow> panic + float64 list" where
  "output_loop frequencies i output =
     (if i < length frequencies
      then if i < length output
           then output_loop frequencies (i + 1) (output[i := fst (frequencies ! i)])
           else Inl IndexOutOfRange
      else Inr output)"
  by pat_completeness auto
termination
  by (relation "measure (\<lambda>(frequencies, i, output). length frequencies - i)") auto

declare output_loop.simps [simp del]

text \<open>
  \<^verbatim>\<open>frequencyTransform\<close>. The first loop fills the slice \<open>input\<close>, element by element,
  from the array \<open>series\<close>.
\<close>

definition frequencyTransform :: "libs \<Rightarrow> float64 list \<Rightarrow> panic + float64 list" where
  "frequencyTransform L series =
     (let input = map Rect0 series;
          frequencies = FFT L input
      in output_loop frequencies 0 (replicate Iterations (Finite False 0)))"

section \<open>Requests and responses\<close>

text \<open>
  Of a request the handlers read the method and the query; the multiplexer reads the
  path. \<open>Query\<close> is the parsed query string, the pairs of key and value in their order.
  \<^verbatim>\<open>Values.Get\<close> returns the first value of a key and the empty string when the key has
  none.
\<close>

record Request =
  Method :: string
  Path :: string
  Query :: "(string \<times> string) list"

definition Values_Get :: "(string \<times> string) list \<Rightarrow> string \<Rightarrow> string" where
  "Values_Get q key = (case map_of q key of None \<Rightarrow> [] | Some v \<Rightarrow> v)"

text \<open>
  The \<^verbatim>\<open>http.ResponseWriter\<close>: the header map, the status once it is written, and the
  body. \<^verbatim>\<open>WriteHeader\<close> after the status is written changes nothing; the first \<^verbatim>\<open>Write\<close>
  writes status 200 when none is written; a handler that returns with no status written
  answers 200.
\<close>

record ResponseWriter =
  header :: "string \<rightharpoonup> string"
  status :: "nat option"
  body :: string

definition newResponseWriter :: ResponseWriter where
  "newResponseWriter = \<lparr>header = Map.empty, status = None, body = []\<rparr>"

definition Header_Set :: "string \<Rightarrow> string \<Rightarrow> ResponseWriter \<Rightarrow> ResponseWriter" where
  "Header_Set k v w = w\<lparr>header := (header w)(k \<mapsto> v)\<rparr>"

definition WriteHeader :: "nat \<Rightarrow> ResponseWriter \<Rightarrow> ResponseWriter" where
  "WriteHeader code w = (if status w = None then w\<lparr>status := Some code\<rparr> else w)"

definition Write :: "string \<Rightarrow> ResponseWriter \<Rightarrow> ResponseWriter" where
  "Write bytes w =
     (let w' = (if status w = None then w\<lparr>status := Some 200\<rparr> else w)
      in w'\<lparr>body := body w' @ bytes\<rparr>)"

definition status_code :: "ResponseWriter \<Rightarrow> nat" where
  "status_code w = (case status w of None \<Rightarrow> 200 | Some code \<Rightarrow> code)"

text \<open>
  The calls a handler makes, in order: the two functions of the numeric pipeline and the
  library calls that receive the series.
\<close>

datatype call =
    Call_logisticMap float64
  | Call_frequencyTransform "float64 list"
  | Call_Marshal payload
  | Call_Render Chart
  | Call_Execute tmpl_context

section \<open>The handlers\<close>

definition getRate :: "libs \<Rightarrow> Request \<Rightarrow> NumError + float64" where
  "getRate L r =
     (let rateParam = Values_Get (Query r) ''rate'';
          rateParam = (if rateParam = [] then DefaultRate else rateParam)
      in ParseFloat L rateParam)"

text \<open>
  \<^verbatim>\<open>get\<close>. A handler returns the response writer and its calls, or panics. The line
  written to the standard error stream on a marshalling error is not modelled.
\<close>

definition get :: "libs \<Rightarrow> ResponseWriter \<Rightarrow> Request \<Rightarrow> panic + ResponseWriter \<times> call list" where
  "get L w r =
     (let w = Header_Set ''Content-Type'' ''application/json'' w
      in case getRate L r of
           Inl err \<Rightarrow> Inr (WriteHeader 400 w, [])
         | Inr rate \<Rightarrow>
             (let timeSeries = logisticMap rate
              in case frequencyTransform L timeSeries of
                   Inl p \<Rightarrow> Inl p
                 | Inr frequencySeries \<Rightarrow>
                     (let out = \<lparr>Time = timeSeries, Frequency = frequencySeries\<rparr>;
                          calls = [Call_logisticMap rate, Call_frequencyTransform timeSeries,
                                   Call_Marshal out]
                      in case Marshal L out of
                           None \<Rightarrow> Inr (WriteHeader 500 w, calls)
                         | Some bytes \<Rightarrow> Inr (Write bytes w, calls))))"

text \<open>
  \<^verbatim>\<open>getChart\<close>. The x values are \<^verbatim>\<open>float64(i) * timeStep\<close> with the constants
  \<^verbatim>\<open>1.0 / Iterations\<close> and \<^verbatim>\<open>0.5 / Iterations\<close>. Of a chart the model keeps the size and the
  series; the axis styles and value formatters only reach the renderer.
\<close>

definition xSeries :: "rat \<Rightarrow> float64 list" where
  "xSeries step = map (\<lambda>i. fmul (float64_of_nat i) (const64 step)) [0..<Iterations]"

definition lineChart :: "float64 list \<Rightarrow> float64 list \<Rightarrow> Chart" where
  "lineChart xs ys = \<lparr>Width = 400, Height = 300, Series = [\<lparr>XValues = xs, YValues = ys\<rparr>]\<rparr>"

definition getChart :: "libs \<Rightarrow> ResponseWriter \<Rightarrow> Request \<Rightarrow> panic + ResponseWriter \<times> call list" where
  "getChart L w r =
     (let w = Header_Set ''Content-Type'' ''text/html'' w
      in case getRate L r of
           Inl err \<Rightarrow> Inr (WriteHeader 400 w, [])
         | Inr rate \<Rightarrow>
             (let timeSeries = logisticMap rate;
                  timeChart = lineChart (xSeries (1 / 100)) timeSeries
              in case frequencyTransform L timeSeries of
                   Inl p \<Rightarrow> Inl p
                 | Inr frequencySeries \<Rightarrow>
                     (let frequencyChart = lineChart (xSeries (1 / 200)) frequencySeries;
                          buf = Render L timeChart @ Render L frequencyChart;
                          ctx = \<lparr>Rate = Sprintf_2f L rate, Body = buf\<rparr>;
                          (chunks, failed) = Execute L ctx;
                          w = foldl (\<lambda>w bytes. Write bytes w) w chunks;
                          w = (if failed then WriteHeader 500 w else w)
                      in Inr (w, [Call_logisticMap rate, Call_frequencyTransform timeSeries,
                                  Call_Render timeChart, Call_Render frequencyChart,
                                  Call_Execute ctx]))))"

text \<open>
  The two handlers registered in \<^verbatim>\<open>main\<close>, and the multiplexer on the two registered
  patterns: \<^verbatim>\<open>/chart\<close> matches that path alone, \<^verbatim>\<open>/\<close> every other path.
\<close>

definition rootHandler :: "libs \<Rightarrow> ResponseWriter \<Rightarrow> Request \<Rightarrow> panic + ResponseWriter \<times> call list" where
  "rootHandler L w r =
     (if Method r = ''GET'' then get L w r
      else Inr (WriteHeader 405 (Header_Set ''Allow'' ''GET'' w), []))"

definition chartHandler :: "libs \<Rightarrow> ResponseWriter \<Rightarrow> Request \<Rightarrow> panic + ResponseWriter \<times> call list" where
  "chartHandler L w r =
     (if Method r = ''GET'' then getChart L w r
      else Inr (WriteHeader 405 (Header_Set ''Allow'' ''GET'' w), []))"

definition serve :: "libs \<Rightarrow> Request \<Rightarrow> panic + ResponseWriter \<times> call list" where
  "serve L r =
     (if Path r = ''/chart'' then chartHandler L newResponseWriter r
      else rootHandler L newResponseWriter r)"

section \<open>What a handler hands to the libraries\<close>

text \<open>
  The arrays a call hands over: the two fields of the struct that is marshalled, the
  y values of the series of a chart that is rendered.
\<close>

fun call_arrays :: "call \<Rightarrow> float64 list list" where
  "call_arrays (Call_Marshal p) = [Time p, Frequency p]"
| "call_arrays (Call_Render c) = map YValues (Series c)"
| "call_arrays _ = []"

definition output_arrays :: "call list \<Rightarrow> float64 list list" where
  "output_arrays calls = concat (map call_arrays calls)"

text \<open>
  The library calls after the pipeline succeed, for a rate: on \<^verbatim>\<open>/\<close> the struct of the two
  series is marshalled, on \<^verbatim>\<open>/chart\<close> the template executes with no error.
\<close>

definition chart_context :: "libs \<Rightarrow> float64 \<Rightarrow> float64 list \<Rightarrow> tmpl_context" where
  "chart_context L rate fs =
     \<lparr>Rate = Sprintf_2f L rate,
      Body = Render L (lineChart (xSeries (1 / 100)) (logisticMap rate)) @
             Render L (lineChart (xSeries (1 / 200)) fs)\<rparr>"

definition marshal_ok :: "libs \<Rightarrow> float64 \<Rightarrow> bool" where
  "marshal_ok L rate =
     (case frequencyTransform L (logisticMap rate) of
        Inl p \<Rightarrow> False
      | Inr fs \<Rightarrow> Marshal L \<lparr>Time = logisticMap rate, Frequency = fs\<rparr> \<noteq> None)"

definition execute_ok :: "libs \<Rightarrow> float64 \<Rightarrow> bool" where
  "execute_ok L rate =
     (case frequencyTransform L (logisticMap rate) of
        Inl p \<Rightarrow> False
      | Inr fs \<Rightarrow> \<not> snd (Execute L (chart_context L rate fs)))"

section \<open>Test doubles of the libraries\<close>

text \<open>
  To run the handlers on concrete requests, the library parameters are instantiated as a
  Go test of the handlers would: a parser of plain decimal literals (sign, digits,
  fraction, decimal exponent) that rounds to the nearest float64 as \<^verbatim>\<open>strconv.ParseFloat\<close>
  does on them, and fixed stand-ins for the transform, the encoder, the renderer and the
  template. The theorems about the program hold for every instance of the parameters.
\<close>

definition digit_of :: "char \<Rightarrow> nat option" where
  "digit_of c = (let n = (of_char c :: nat) in if 48 \<le> n \<and> n \<le> 57 then Some (n - 48) else None)"

fun read_digits :: "string \<Rightarrow> nat \<Rightarrow> nat \<Rightarrow> nat \<times> nat \<times> string" where
  "read_digits [] v k = (v, k, [])"
| "read_digits (c # cs) v k =
     (case digit_of c of None \<Rightarrow> (v, k, c # cs) | Some d \<Rightarrow> read_digits cs (10 * v + d) (k + 1))"

fun read_sign :: "string \<Rightarrow> bool \<times> string" where
  "read_sign [] = (False, [])"
| "read_sign (c # cs) =
     (if c = CHR ''-'' then (True, cs) else if c = CHR ''+'' then (False, cs) else (False, c # cs))"

definition finish_decimal :: "bool \<Rightarrow> rat \<Rightarrow> NumError + float64" where
  "finish_decimal neg q =
     (case round64 neg q of Infinity s \<Rightarrow> Inl ErrRange | x \<Rightarrow> Inr x)"

definition parseDecimal :: "string \<Rightarrow> NumError + float64" where
  "parseDecimal s =
     (let (neg, s1) = read_sign s;
          (ip, ik, s2) = read_digits s1 0 0;
          (fp, fk, s3) = (case s2 of [] \<Rightarrow> (0, 0, [])
                          | c # t \<Rightarrow> if c = CHR ''.'' then read_digits t 0 0 else (0, 0, s2));
          mant = (of_nat ip * 10 ^ fk + of_nat fp) / 10 ^ fk
      in if ik + fk = 0 then Inl ErrSyntax
         else case s3 of
                [] \<Rightarrow> finish_decimal neg mant
              | c # t \<Rightarrow>
                  if c = CHR ''e'' \<or> c = CHR ''E''
                  then (let (eneg, t1) = read_sign t;
                            (ev, ek, t2) = read_digits t1 0 0
                        in if ek = 0 \<or> t2 \<noteq> [] then Inl ErrSyntax
                           else finish_decimal neg
                                  (mant * 10 powi (if eneg then - int ev else int ev)))
                  else Inl ErrSyntax)"

definition testLibs :: libs where
  "testLibs =
     \<lparr>ParseFloat = parseDecimal,
      FFT = (\<lambda>input. input),
      Marshal = (\<lambda>out. Some ''{}''),
      Render = (\<lambda>c. ''<svg/>''),
      Execute = (\<lambda>ctx. ([Body ctx], False)),
      Sprintf_2f = (\<lambda>x. ''0.00'')\<rparr>"

definition testRequest :: "string \<Rightarrow> string \<Rightarrow> (string \<times> string) list \<Rightarrow> Request" where
  "testRequest m p q = \<lparr>Method = m, Path = p, Query = q\<rparr>"

section \<open>Binary exponents\<close>

lemma pow2_pos: "0 < (2::rat) powi e"
  by (simp add: zero_less_power_int)

lemma pow2_mono: "a \<le> b \<Longrightarrow> (2::rat) powi a \<le> 2 powi b"
  by (rule power_int_increasing) simp_all

lemma pow2_strict_mono: "a < b \<Longrightarrow> (2::rat) powi a < 2 powi b"
  by (rule power_int_strict_increasing) simp_all

lemma pow2_add: "(2::rat) powi (a + b) = 2 powi a * 2 powi b"
  by (simp add: power_int_add)

lemma pow2_diff: "(2::rat) powi (a - b) = 2 powi a / 2 powi b"
  by (simp add: power_int_diff)

lemma pow2_nat: "0 \<le> k \<Longrightarrow> (2::rat) powi k = 2 ^ nat k"
  by (simp add: power_int_def)

lemma pow2_split: "(2::rat) powi e = 2 ^ n * 2 powi (e - int n)"
  by (simp add: power_int_diff)

lemma pow2_less_cancel: "(2::rat) powi a < 2 powi b \<Longrightarrow> a < b"
  using pow2_mono [of b a] by (cases "a < b") auto

lemma bitlen_rat_bounds:
  assumes "0 < a"
  shows "(2::rat) powi (bitlen a - 1) \<le> of_int a" and "of_int a < (2::rat) powi (bitlen a)"
proof -
  from bitlen_bounds [OF assms]
  have lo: "2 ^ nat (bitlen a - 1) \<le> a" and hi: "a < 2 ^ nat (bitlen a)" by simp_all
  have pos: "1 \<le> bitlen a"
    using assms hi bitlen_nonneg [of a] by (cases "bitlen a = 0") auto
  have "(2::rat) powi (bitlen a - 1) = of_int (2 ^ nat (bitlen a - 1))"
    using pos by (simp add: pow2_nat)
  also have "\<dots> \<le> of_int a"
    using lo by (simp only: of_int_le_iff)
  finally show "(2::rat) powi (bitlen a - 1) \<le> of_int a" .
  have "(of_int a :: rat) < of_int (2 ^ nat (bitlen a))"
    using hi by (simp only: of_int_less_iff)
  also have "\<dots> = 2 powi (bitlen a)"
    using pos by (simp add: pow2_nat)
  finally show "of_int a < (2::rat) powi (bitlen a)" .
qed

lemma ilog2_bounds:
  assumes "0 < q"
  shows "2 powi (ilog2 q) \<le> q" and "q < 2 powi (ilog2 q + 1)"
proof -
  obtain a b where ab: "quotient_of q = (a, b)"
    by (cases "quotient_of q")
  have b: "0 < b"
    using quotient_of_denom_pos [OF ab] .
  have q: "q = of_int a / of_int b"
    using quotient_of_div [OF ab] .
  have a: "0 < a"
    using assms q b by (simp add: zero_less_divide_iff)
  let ?d = "bitlen a - bitlen b"
  note A = bitlen_rat_bounds [OF a] and B = bitlen_rat_bounds [OF b]
  have bpos: "(0::rat) < of_int b" using b by simp
  have up: "q < 2 powi (?d + 1)"
  proof -
    have "of_int a < (2::rat) powi (bitlen a)" by (rule A(2))
    also have "\<dots> = 2 powi (?d + 1) * 2 powi (bitlen b - 1)"
      by (simp add: pow2_add [symmetric])
    also have "\<dots> \<le> 2 powi (?d + 1) * of_int b"
      using B(1) by (simp add: mult_left_mono)
    finally show ?thesis
      using bpos by (simp add: q pos_divide_less_eq)
  qed
  have lo: "2 powi (?d - 1) < q"
  proof -
    have "(2::rat) powi (?d - 1) * of_int b < 2 powi (?d - 1) * 2 powi (bitlen b)"
      using B(2) by (simp add: mult_strict_left_mono)
    also have "\<dots> = 2 powi (bitlen a - 1)"
      by (simp add: pow2_add [symmetric])
    also have "\<dots> \<le> of_int a" by (rule A(1))
    finally show ?thesis
      using bpos by (simp add: q pos_less_divide_eq)
  qed
  have il: "ilog2 q = (if 2 powi ?d \<le> q then ?d else ?d - 1)"
    by (simp add: ilog2_def ab Let_def)
  show "2 powi (ilog2 q) \<le> q"
    using lo by (simp add: il)
  show "q < 2 powi (ilog2 q + 1)"
    using up by (simp add: il not_le)
qed

lemma ilog2_unique:
  assumes "2 powi e \<le> q" and "q < 2 powi (e + 1)"
  shows "ilog2 q = e"
proof -
  have q: "0 < q"
    using assms(1) pow2_pos [of e] by linarith
  note I = ilog2_bounds [OF q]
  have "2 powi e < (2::rat) powi (ilog2 q + 1)"
    using assms(1) I(2) by linarith
  then have 1: "e < ilog2 q + 1" by (rule pow2_less_cancel)
  have "2 powi (ilog2 q) < (2::rat) powi (e + 1)"
    using assms(2) I(1) by linarith
  then have 2: "ilog2 q < e + 1" by (rule pow2_less_cancel)
  from 1 2 show ?thesis by simp
qed

lemma ilog2_less: "0 < q \<Longrightarrow> q < 2 powi e \<Longrightarrow> ilog2 q < e"
  using ilog2_bounds(1) [of q] pow2_less_cancel [of "ilog2 q" e] by linarith

lemma ilog2_ge: "2 powi e \<le> q \<Longrightarrow> e \<le> ilog2 q"
proof -
  assume a: "2 powi e \<le> q"
  then have q: "0 < q" using pow2_pos [of e] by linarith
  have "2 powi e < (2::rat) powi (ilog2 q + 1)"
    using a ilog2_bounds(2) [OF q] by linarith
  then have "e < ilog2 q + 1" by (rule pow2_less_cancel)
  then show ?thesis by simp
qed

section \<open>Rounding to an integer\<close>

lemma rne_of_int: "rne (of_int k) = k"
  by (simp add: rne_def)

lemma rne_cases: "rne t = \<lfloor>t\<rfloor> \<or> rne t = \<lfloor>t\<rfloor> + 1"
  by (simp add: rne_def Let_def)

lemma rne_ge_floor: "\<lfloor>t\<rfloor> \<le> rne t"
  using rne_cases [of t] by auto

lemma rne_le: "t \<le> of_int k \<Longrightarrow> rne t \<le> k"
proof -
  assume a: "t \<le> of_int k"
  then have f: "\<lfloor>t\<rfloor> \<le> k"
    by (simp add: floor_le_iff)
  show ?thesis
  proof (cases "\<lfloor>t\<rfloor> = k")
    case True
    then have "of_int k \<le> t" by (metis of_int_floor_le)
    with a have "t = of_int k" by simp
    then show ?thesis by (simp add: rne_of_int)
  next
    case False
    with f have "\<lfloor>t\<rfloor> + 1 \<le> k" by simp
    with rne_cases [of t] show ?thesis by auto
  qed
qed

lemma rne_ge: "of_int k \<le> t \<Longrightarrow> k \<le> rne t"
proof -
  assume "of_int k \<le> t"
  then have "k \<le> \<lfloor>t\<rfloor>" by (simp add: le_floor_iff)
  with rne_ge_floor [of t] show ?thesis by simp
qed

lemma rne_upper: "of_int (rne t) \<le> t + 1 / 2"
proof -
  have fl: "of_int \<lfloor>t\<rfloor> \<le> t" by simp
  have "rne t = \<lfloor>t\<rfloor> \<or> (rne t = \<lfloor>t\<rfloor> + 1 \<and> 1 / 2 \<le> t - of_int \<lfloor>t\<rfloor>)"
    by (auto simp: rne_def Let_def)
  then show ?thesis
  proof
    assume a: "rne t = \<lfloor>t\<rfloor>"
    have "of_int (rne t) \<le> t" unfolding a by (rule of_int_floor_le)
    then show ?thesis by linarith
  next
    assume "rne t = \<lfloor>t\<rfloor> + 1 \<and> 1 / 2 \<le> t - of_int \<lfloor>t\<rfloor>"
    then show ?thesis by simp
  qed
qed

lemma rne_tie_even:
  assumes "t \<le> of_int k + 1 / 2" and "even k"
  shows "rne t \<le> k"
proof (cases "t \<le> of_int k")
  case True
  then show ?thesis by (rule rne_le)
next
  case False
  then have "of_int k \<le> t" "t < of_int k + 1"
    using assms(1) by simp_all
  then have f: "\<lfloor>t\<rfloor> = k"
    by (simp add: floor_unique)
  show ?thesis
    using assms f by (auto simp: rne_def Let_def)
qed

section \<open>Rounding a magnitude\<close>

lemma ulp_pos: "0 < ulp q"
  by (simp add: ulp_def pow2_pos)

lemma expo_ge: "- 1022 \<le> expo q"
  by (simp add: expo_def)

lemma expo_upper: "0 < q \<Longrightarrow> q < 2 powi (expo q + 1)"
proof -
  assume q: "0 < q"
  have "q < 2 powi (ilog2 q + 1)" by (rule ilog2_bounds(2) [OF q])
  also have "\<dots> \<le> 2 powi (expo q + 1)"
    by (rule pow2_mono) (simp add: expo_def)
  finally show ?thesis .
qed

lemma expo_normal: "0 < q \<Longrightarrow> - 1022 < expo q \<Longrightarrow> 2 powi (expo q) \<le> q"
  using ilog2_bounds(1) [of q] by (simp add: expo_def max_def split: if_splits)

lemma expo_eqI:
  assumes "0 < q" and "q < 2 powi (e + 1)" and "- 1022 \<le> e"
    and "2 powi e \<le> q \<or> e = - 1022"
  shows "expo q = e"
proof (cases "2 powi e \<le> q")
  case True
  then have "ilog2 q = e" using assms(2) by (rule ilog2_unique)
  then show ?thesis using assms(3) by (simp add: expo_def)
next
  case False
  with assms(4) have e: "e = - 1022" by simp
  from False have "q < 2 powi e" by simp
  from ilog2_less [OF assms(1) this] show ?thesis
    by (simp add: expo_def e)
qed

lemma pow2_53_ulp: "2 powi (expo q + 1) = 2 ^ 53 * ulp q"
proof -
  have "expo q + 1 = 53 + (expo q - 52)" by simp
  then have "(2::rat) powi (expo q + 1) = 2 powi (53 + (expo q - 52))" by (simp only:)
  also have "\<dots> = 2 powi 53 * 2 powi (expo q - 52)" by (rule pow2_add)
  finally show ?thesis by (simp add: ulp_def)
qed

lemma pow2_52_ulp: "2 powi (expo q) = 2 ^ 52 * ulp q"
proof -
  have "expo q = 52 + (expo q - 52)" by simp
  then have "(2::rat) powi (expo q) = 2 powi (52 + (expo q - 52))" by (simp only:)
  also have "\<dots> = 2 powi 52 * 2 powi (expo q - 52)" by (rule pow2_add)
  finally show ?thesis by (simp add: ulp_def)
qed

lemma round_mag_nonneg: "0 \<le> q \<Longrightarrow> 0 \<le> round_mag q"
proof -
  assume q: "0 \<le> q"
  have "0 \<le> q / ulp q" using q ulp_pos [of q] by simp
  then have "0 \<le> rne (q / ulp q)" using rne_ge [of 0 "q / ulp q"] by simp
  then show ?thesis
    using ulp_pos [of q] by (simp add: round_mag_def)
qed

lemma round_mag_le_multiple:
  assumes "q \<le> of_int k * ulp q"
  shows "round_mag q \<le> of_int k * ulp q"
proof (cases "q = 0")
  case True
  with assms show ?thesis by (simp add: round_mag_def)
next
  case False
  have "q / ulp q \<le> of_int k"
    using assms ulp_pos [of q] by (simp add: pos_divide_le_eq)
  then have "rne (q / ulp q) \<le> k" by (rule rne_le)
  then have "(of_int (rne (q / ulp q)) :: rat) \<le> of_int k" by simp
  then show ?thesis
    using False ulp_pos [of q] by (simp add: round_mag_def)
qed

lemma round_mag_ge_multiple:
  assumes "of_int k * ulp q \<le> q" and "q \<noteq> 0"
  shows "of_int k * ulp q \<le> round_mag q"
proof -
  have "of_int k \<le> q / ulp q"
    using assms ulp_pos [of q] by (simp add: pos_le_divide_eq)
  then have "k \<le> rne (q / ulp q)" by (rule rne_ge)
  then have "(of_int k :: rat) \<le> of_int (rne (q / ulp q))" by simp
  then show ?thesis
    using assms(2) ulp_pos [of q] by (simp add: round_mag_def)
qed

lemma round_mag_upper: "0 < q \<Longrightarrow> round_mag q \<le> 2 powi (expo q + 1)"
proof -
  assume q: "0 < q"
  have "q \<le> of_int (2 ^ 53) * ulp q"
    using expo_upper [OF q] by (simp add: pow2_53_ulp)
  from round_mag_le_multiple [OF this] show ?thesis
    by (simp add: pow2_53_ulp)
qed

lemma round_mag_error: "0 \<le> q \<Longrightarrow> round_mag q \<le> q + ulp q / 2"
proof (cases "q = 0")
  case True
  then show ?thesis using ulp_pos [of 0] by (simp add: round_mag_def)
next
  case False
  have "of_int (rne (q / ulp q)) * ulp q \<le> (q / ulp q + 1 / 2) * ulp q"
    using rne_upper [of "q / ulp q"] ulp_pos [of q] by (simp only: mult_le_cancel_right_pos)
  also have "\<dots> = q + ulp q / 2"
    using ulp_pos [of q] by (simp add: field_simps)
  finally show ?thesis
    using False by (simp add: round_mag_def)
qed

lemma round_mag_le_one:
  assumes "0 \<le> w" and "w \<le> 1 + 2 powi (- 53)"
  shows "round_mag w \<le> 1"
proof (cases "w < 1")
  case True
  show ?thesis
  proof (cases "w = 0")
    case True
    then show ?thesis by (simp add: round_mag_def)
  next
    case False
    with assms have w: "0 < w" by simp
    have "w < 2 powi 0" using True by simp
    from ilog2_less [OF w this] have "expo w + 1 \<le> 0"
      by (simp add: expo_def)
    then have "(2::rat) powi (expo w + 1) \<le> 2 powi 0" by (rule pow2_mono)
    with round_mag_upper [OF w] show ?thesis by simp
  qed
next
  case False
  then have w1: "1 \<le> w" by simp
  then have w: "0 < w" by simp
  have "w < 2 powi (0 + 1)"
  proof -
    have "(2::rat) powi (- 53) < 2 powi 0" by (rule pow2_strict_mono) simp
    with assms(2) show ?thesis by simp
  qed
  moreover have "2 powi 0 \<le> w" using w1 by simp
  ultimately have "ilog2 w = 0" by (rule ilog2_unique [rotated])
  then have e: "expo w = 0" by (simp add: expo_def)
  have u: "ulp w = 2 powi (- 52)" by (simp add: ulp_def e)
  have "w / ulp w \<le> of_int (2 ^ 52) + 1 / 2"
  proof -
    have "w / 2 powi (- 52) = w * 2 powi 52"
      by (simp add: power_int_minus field_simps)
    also have "\<dots> \<le> (1 + 2 powi (- 53)) * 2 powi 52"
      using assms(2) by (simp add: mult_right_mono)
    also have "\<dots> = 2 powi 52 + 2 powi (- 53 + 52)"
      by (simp only: distrib_right pow2_add mult_1)
    also have "\<dots> = of_int (2 ^ 52) + 1 / 2"
      by (simp add: power_int_minus)
    finally show ?thesis by (simp add: u)
  qed
  then have "rne (w / ulp w) \<le> 2 ^ 52"
    by (rule rne_tie_even) simp
  then have "(of_int (rne (w / ulp w)) :: rat) \<le> of_int (2 ^ 52)"
    by (simp only: of_int_le_iff)
  then have "of_int (rne (w / ulp w)) * ulp w \<le> of_int (2 ^ 52) * ulp w"
    using ulp_pos [of w] by (simp only: mult_le_cancel_right_pos)
  also have "\<dots> = 1" by (simp add: u power_int_minus)
  finally show ?thesis
    using w by (simp add: round_mag_def)
qed

section \<open>Representable magnitudes\<close>

lemma representable_multiple:
  assumes "round_mag m = m"
  shows "\<exists>k. m = of_int k * ulp m"
proof (cases "m = 0")
  case True
  then show ?thesis by (intro exI [of _ 0]) simp
next
  case False
  with assms have "m = of_int (rne (m / ulp m)) * ulp m"
    by (simp add: round_mag_def)
  then show ?thesis by blast
qed

lemma round_mag_le_four_times:
  assumes x: "round_mag x = x" "0 < x" and z: "0 < z" "z \<le> 4 * x"
  shows "round_mag z \<le> 4 * x"
proof -
  obtain k where k: "x = of_int k * ulp x"
    using representable_multiple [OF x(1)] by blast
  have "z < 4 * 2 powi (expo x + 1)"
    using z(2) expo_upper [OF x(2)] by linarith
  also have "\<dots> = 2 powi (2 + (expo x + 1))"
    by (simp only: pow2_add) simp
  finally have "z < 2 powi (expo x + 3)"
    by (simp add: add.commute)
  from ilog2_less [OF z(1) this] have "ilog2 z \<le> expo x + 2" by simp
  with expo_ge [of x] have le: "expo z \<le> expo x + 2"
    by (simp add: expo_def)
  define j where "j = expo x + 2 - expo z"
  have j: "0 \<le> j" using le by (simp add: j_def)
  have a: "(2::rat) powi ((expo x - 52) + 2) = 2 powi (expo x - 52) * 2 powi 2"
    by (rule pow2_add)
  have b: "(2::rat) powi (j + (expo z - 52)) = 2 powi j * 2 powi (expo z - 52)"
    by (rule pow2_add)
  have c: "(expo x - 52) + 2 = j + (expo z - 52)"
    by (simp add: j_def)
  have "(2::rat) powi (expo x - 52) * 2 powi 2 = 2 powi j * 2 powi (expo z - 52)"
    using a b c by metis
  then have "ulp x * 4 = 2 powi j * ulp z"
    by (simp add: ulp_def)
  also have "\<dots> = of_int (2 ^ nat j) * ulp z"
    using j by (simp add: pow2_nat)
  finally have u: "ulp x * 4 = of_int (2 ^ nat j) * ulp z" .
  have "4 * x = of_int k * (ulp x * 4)"
    using k by (simp add: mult.commute mult.left_commute)
  also have "\<dots> = of_int (k * 2 ^ nat j) * ulp z"
    by (simp add: u)
  finally have eq: "4 * x = of_int (k * 2 ^ nat j) * ulp z" .
  from z(2) have "z \<le> of_int (k * 2 ^ nat j) * ulp z" by (simp only: eq)
  from round_mag_le_multiple [OF this] show ?thesis by (simp only: eq)
qed

lemma expo_of_multiple:
  assumes "- 1022 \<le> e" and "0 < n" and "n < 2 ^ 53" and "e = - 1022 \<or> 2 ^ 52 \<le> n"
  shows "expo (of_int n * 2 powi (e - 52)) = e"
proof (rule expo_eqI)
  let ?u = "(2::rat) powi (e - 52)"
  have u: "0 < ?u" by (rule pow2_pos)
  show "0 < of_int n * ?u"
    using assms(2) u by simp
  have e1: "(2::rat) powi (e + 1) = of_int (2 ^ 53) * ?u"
    using pow2_split [of "e + 1" 53] by simp
  have e0: "(2::rat) powi e = of_int (2 ^ 52) * ?u"
    using pow2_split [of e 52] by simp
  have "(of_int n :: rat) < of_int (2 ^ 53)"
    using assms(3) by (simp only: of_int_less_iff)
  then show "of_int n * ?u < 2 powi (e + 1)"
    using u by (simp only: e1 mult_less_cancel_right_pos)
  show "- 1022 \<le> e" by (rule assms(1))
  show "2 powi e \<le> of_int n * ?u \<or> e = - 1022"
  proof (cases "e = - 1022")
    case True
    then show ?thesis by simp
  next
    case False
    with assms(4) have "2 ^ 52 \<le> n" by simp
    then have "(of_int (2 ^ 52) :: rat) \<le> of_int n"
      by (simp only: of_int_le_iff)
    then have "2 powi e \<le> of_int n * ?u"
      using u by (simp only: e0 mult_le_cancel_right_pos)
    then show ?thesis by simp
  qed
qed

lemma round_mag_idem:
  assumes "0 \<le> q"
  shows "round_mag (round_mag q) = round_mag q"
proof (cases "q = 0")
  case True
  then show ?thesis by (simp add: round_mag_def)
next
  case False
  with assms have q: "0 < q" by simp
  define e where "e = expo q"
  define n where "n = rne (q / ulp q)"
  let ?u = "(2::rat) powi (e - 52)"
  have u: "ulp q = ?u" by (simp add: ulp_def e_def)
  have upos: "0 < ?u" by (rule pow2_pos)
  have m: "round_mag q = of_int n * ?u"
    using False by (simp add: round_mag_def n_def u)
  have e: "- 1022 \<le> e" by (simp add: e_def expo_ge)
  have n0: "0 \<le> n"
  proof -
    have "of_int 0 \<le> q / ulp q" using q ulp_pos [of q] by simp
    then show ?thesis unfolding n_def by (rule rne_ge)
  qed
  have n53: "n \<le> 2 ^ 53"
  proof -
    have "q \<le> 2 ^ 53 * ulp q"
      using expo_upper [OF q] by (simp add: pow2_53_ulp)
    then have "q / ulp q \<le> of_int (2 ^ 53)"
      using ulp_pos [of q] by (simp add: pos_divide_le_eq)
    then show ?thesis unfolding n_def by (rule rne_le)
  qed
  have n52: "2 ^ 52 \<le> n" if "e \<noteq> - 1022"
  proof -
    from that e have "- 1022 < expo q" by (simp add: e_def)
    from expo_normal [OF q this] have "2 ^ 52 * ulp q \<le> q"
      by (simp add: pow2_52_ulp)
    then have "of_int (2 ^ 52) \<le> q / ulp q"
      using ulp_pos [of q] by (simp add: pos_le_divide_eq)
    then show ?thesis unfolding n_def by (rule rne_ge)
  qed
  consider "n = 0" | "0 < n" "n < 2 ^ 53" | "n = 2 ^ 53"
    using n0 n53 by linarith
  then show ?thesis
  proof cases
    case 1
    then have "round_mag q = 0" by (simp add: m)
    then show ?thesis by (simp only:) (simp add: round_mag_def)
  next
    case 2
    have ex: "expo (of_int n * ?u) = e"
      using e 2 n52 by (intro expo_of_multiple) auto
    have ne: "of_int n * ?u \<noteq> 0"
      using 2(1) upos by simp
    have "round_mag (of_int n * ?u) = of_int (rne (of_int n * ?u / ?u)) * ?u"
      using ne by (simp add: round_mag_def ulp_def ex)
    also have "of_int n * ?u / ?u = of_int n"
      using upos by simp
    finally show ?thesis
      by (simp add: m rne_of_int)
  next
    case 3
    have e2: "(2::rat) powi (e + 1) = of_int (2 ^ 53) * ?u"
      using pow2_split [of "e + 1" 53] by simp
    have mm: "round_mag q = 2 powi (e + 1)"
      by (simp add: m 3 e2)
    have ex: "expo (2 powi (e + 1)) = e + 1"
    proof (rule expo_eqI)
      show "0 < (2::rat) powi (e + 1)" by (rule pow2_pos)
      show "(2::rat) powi (e + 1) < 2 powi (e + 1 + 1)" by (rule pow2_strict_mono) simp
      show "- 1022 \<le> e + 1" using e by simp
      show "(2::rat) powi (e + 1) \<le> 2 powi (e + 1) \<or> e + 1 = - 1022" by simp
    qed
    have ul: "ulp (2 powi (e + 1)) = 2 powi (e + 1 - 52)"
      by (simp add: ulp_def ex)
    have split: "(2::rat) powi (e + 1) = of_int (2 ^ 52) * 2 powi (e + 1 - 52)"
      using pow2_split [of "e + 1" 52] by simp
    have quot: "(2::rat) powi (e + 1) / 2 powi (e + 1 - 52) = of_int (2 ^ 52)"
      using pow2_pos [of "e + 1 - 52"] by (subst split) simp
    have ne: "(2::rat) powi (e + 1) \<noteq> 0"
      using pow2_pos [of "e + 1"] by simp
    have "round_mag (2 powi (e + 1)) =
            of_int (rne (2 powi (e + 1) / 2 powi (e + 1 - 52))) * 2 powi (e + 1 - 52)"
      using ne by (simp add: round_mag_def ul)
    also have "\<dots> = of_int (2 ^ 52) * 2 powi (e + 1 - 52)"
      by (simp only: quot rne_of_int)
    also have "\<dots> = 2 powi (e + 1)"
      by (simp only: split [symmetric])
    finally show ?thesis
      by (simp only: mm)
  qed
qed

section \<open>One step of the logistic map on the unit interval\<close>

lemma round64_small: "round_mag q \<le> 4 \<Longrightarrow> round64 s q = Finite s (round_mag q)"
proof -
  assume "round_mag q \<le> 4"
  moreover have "(4::rat) < 2 ^ 1024" by simp
  ultimately have "\<not> 2 ^ 1024 \<le> round_mag q" by linarith
  then show ?thesis by (simp add: round64_def Let_def)
qed

lemma round_mag_zero: "round_mag 0 = 0"
  by (simp add: round_mag_def)

lemma one_minus_rounded:
  assumes "0 \<le> x" and "x \<le> 1"
  shows "0 \<le> round_mag (1 - x)" and "round_mag (1 - x) \<le> 1"
    and "4 * x * round_mag (1 - x) \<le> 1 + 2 powi (- 53)"
proof -
  let ?z = "1 - x"
  let ?y = "round_mag ?z"
  have z: "0 \<le> ?z" "?z \<le> 1" using assms by simp_all
  show y0: "0 \<le> ?y" by (rule round_mag_nonneg [OF z(1)])
  have p53: "0 < (2::rat) powi (- 53)" by (rule pow2_pos)
  show "?y \<le> 1"
    using z p53 by (intro round_mag_le_one) simp_all
  have sq: "4 * x * ?z \<le> 1"
  proof -
    have "0 \<le> (2 * x - 1) * (2 * x - 1)" by simp
    then show ?thesis by (simp add: algebra_simps)
  qed
  show "4 * x * ?y \<le> 1 + 2 powi (- 53)"
  proof (cases "?z = 0")
    case True
    then show ?thesis using p53 by (simp add: round_mag_zero)
  next
    case False
    with z have zp: "0 < ?z" by simp
    show ?thesis
    proof (cases "- 1022 < expo ?z")
      case True
      have "ulp ?z = 2 powi (expo ?z) * 2 powi (- 52)"
        unfolding ulp_def using pow2_add [of "expo ?z" "- 52"] by simp
      also have "\<dots> \<le> ?z * 2 powi (- 52)"
        using expo_normal [OF zp True] pow2_pos [of "- 52"]
        by (simp only: mult_le_cancel_right_pos)
      finally have "ulp ?z / 2 \<le> ?z * (2 powi (- 52) / 2)" by simp
      also have "(2::rat) powi (- 52) / 2 = 2 powi (- 53)"
        by (simp add: power_int_minus)
      finally have "?y \<le> ?z + ?z * 2 powi (- 53)"
        using round_mag_error [OF z(1)] by linarith
      then have "?y \<le> ?z * (1 + 2 powi (- 53))"
        by (simp only: distrib_left mult.right_neutral)
      then have "4 * x * ?y \<le> 4 * x * (?z * (1 + 2 powi (- 53)))"
        using assms(1) by (intro mult_left_mono) simp_all
      also have "\<dots> = (4 * x * ?z) * (1 + 2 powi (- 53))"
        by (simp only: mult.assoc)
      also have "\<dots> \<le> 1 * (1 + 2 powi (- 53))"
        using sq p53 by (intro mult_right_mono) simp_all
      finally show ?thesis by simp
    next
      case False
      with expo_ge [of ?z] have e: "expo ?z = - 1022" by simp
      have "?y \<le> 2 powi (- 1021)"
        using round_mag_upper [OF zp] by (simp add: e)
      then have "4 * x * ?y \<le> 4 * 1 * 2 powi (- 1021)"
        using assms y0 by (intro mult_mono) simp_all
      also have "\<dots> = 2 powi 2 * 2 powi (- 1021)" by simp
      also have "\<dots> = 2 powi (2 + - 1021)" by (simp only: pow2_add)
      also have "\<dots> \<le> 2 powi 0" by (rule pow2_mono) simp
      finally show ?thesis using p53 by simp
    qed
  qed
qed

lemma times_rate_rounded:
  assumes "0 \<le> r" and "r \<le> 4" and "0 \<le> x" and "round_mag x = x"
  shows "0 \<le> round_mag (r * x)" and "round_mag (r * x) \<le> 4 * x"
proof -
  have rx: "0 \<le> r * x" using assms by simp
  show "0 \<le> round_mag (r * x)" by (rule round_mag_nonneg [OF rx])
  show "round_mag (r * x) \<le> 4 * x"
  proof (cases "r * x = 0")
    case True
    then have "round_mag (r * x) = 0" by (simp only: round_mag_zero)
    then show ?thesis using assms(3) by simp
  next
    case False
    have p: "0 < r * x"
      by (rule order.not_eq_order_implies_strict [OF False [symmetric] rx])
    then have xp: "0 < x" using assms(1,3) by (cases "x = 0") simp_all
    have "r * x \<le> 4 * x" using assms(2,3) by (rule mult_right_mono)
    from round_mag_le_four_times [OF assms(4) xp p this] show ?thesis .
  qed
qed

lemma logistic_step_unit:
  assumes "is_float64 rate" and "between 0 4 rate" and "is_float64 x" and "between 0 1 x"
  shows "is_float64 (fmul (fmul rate x) (fsub (Finite False 1) x)) \<and>
         between 0 1 (fmul (fmul rate x) (fsub (Finite False 1) x))"
proof -
  from assms(2) obtain sr r where rate: "rate = Finite sr r"
    by (cases rate) simp_all
  from assms(4) obtain sx mx where x: "x = Finite sx mx"
    by (cases x) simp_all
  have r: "0 \<le> r" "r \<le> 4" "sr \<longrightarrow> r = 0"
    using assms(1,2) by (auto simp: rate sval_def split: if_splits)
  have mx: "0 \<le> mx" "mx \<le> 1" "sx \<longrightarrow> mx = 0" "round_mag mx = mx"
    using assms(3,4) by (auto simp: x sval_def split: if_splits)
  define a where "a = round_mag (r * mx)"
  define y where "y = round_mag (1 - mx)"
  note A = times_rate_rounded [OF r(1,2) mx(1,4), folded a_def]
  note Y = one_minus_rounded [OF mx(1,2), folded y_def]
  have a4: "a \<le> 4" using A(2) mx(2) by linarith
  have mul1: "fmul rate x = Finite (sr \<noteq> sx) a"
    using a4 by (simp add: rate x a_def round64_small)
  have sv: "sval sx mx = mx"
    using mx(3) by (auto simp: sval_def)
  have s1: "sval False 1 = 1"
    by (simp add: sval_def)
  have v: "sval False 1 - sval sx mx = 1 - mx"
    by (simp only: sv s1)
  have sub0: "fsub (Finite False 1) x =
                (if 1 - mx = 0 then Finite (False \<and> \<not> sx) 0
                 else round64 (1 - mx < 0) \<bar>1 - mx\<bar>)"
    by (simp only: x fsub.simps Let_def v)
  have sub1: "fsub (Finite False 1) x = Finite False y"
  proof (cases "1 - mx = 0")
    case True
    then show ?thesis by (simp add: sub0 y_def round_mag_zero)
  next
    case False
    have "\<bar>1 - mx\<bar> = 1 - mx" using mx(2) by simp
    moreover have "\<not> 1 - mx < 0" using mx(2) by simp
    moreover have "round_mag (1 - mx) \<le> 4" using Y(2) by (simp add: y_def)
    ultimately show ?thesis
      using False by (simp add: sub0 y_def round64_small)
  qed
  have ay0: "0 \<le> a * y" using A(1) Y(1) by simp
  have "a * y \<le> 4 * mx * y"
    using A(2) Y(1) by (rule mult_right_mono)
  with Y(3) have ay: "a * y \<le> 1 + 2 powi (- 53)" by linarith
  define m where "m = round_mag (a * y)"
  have m1: "m \<le> 1" unfolding m_def by (rule round_mag_le_one [OF ay0 ay])
  have m0: "0 \<le> m" unfolding m_def by (rule round_mag_nonneg [OF ay0])
  have mi: "round_mag m = m" unfolding m_def by (rule round_mag_idem [OF ay0])
  have res: "fmul (fmul rate x) (fsub (Finite False 1) x) = Finite (sr \<noteq> sx) m"
    using m1 by (simp add: mul1 sub1 m_def round64_small)
  have neg: "m = 0" if "sr \<noteq> sx"
  proof -
    from that r(3) mx(3) have "r * mx = 0" by auto
    then have "a = 0" unfolding a_def by (simp only: round_mag_zero)
    then have "a * y = 0" by simp
    then show ?thesis unfolding m_def by (simp only: round_mag_zero)
  qed
  have big: "(1::rat) < 2 ^ 1024" by simp
  have "is_float64 (Finite (sr \<noteq> sx) m)"
    using m0 m1 mi big by simp
  moreover have "between 0 1 (Finite (sr \<noteq> sx) m)"
    using m0 m1 neg by (auto simp: sval_def)
  ultimately show ?thesis by (simp only: res)
qed

section \<open>The sequence generator computes the recurrence\<close>

lemma logisticMap_loop_length:
  "length (logisticMap_loop rate i x series) = length series"
proof (induction rate i x series rule: logisticMap_loop.induct)
  case (1 rate i x series)
  show ?case
  proof (cases "i < Iterations")
    case True
    then show ?thesis
      using "1.IH" [OF True refl] by (simp add: logisticMap_loop.simps [of rate i] Let_def)
  next
    case False
    then show ?thesis by (simp add: logisticMap_loop.simps [of rate i])
  qed
qed

lemma logisticMap_loop_spec:
  "i \<le> Iterations \<Longrightarrow> length series = Iterations \<Longrightarrow>
   logisticMap_loop rate i (spec_iterate rate i) series =
     take i series @ map (\<lambda>n. spec_iterate rate (n + 1)) [i..<Iterations]"
proof (induction rate i "spec_iterate rate i" series rule: logisticMap_loop.induct)
  case (1 rate i series)
  show ?case
  proof (cases "i < Iterations")
    case True
    let ?x' = "spec_iterate rate (i + 1)"
    have step: "logisticMap_loop rate i (spec_iterate rate i) series =
                logisticMap_loop rate (i + 1) ?x' (series[i := ?x'])"
      using True by (simp add: logisticMap_loop.simps [of rate i] Let_def)
    have ih: "logisticMap_loop rate (i + 1) ?x' (series[i := ?x']) =
              take (i + 1) (series[i := ?x']) @
                map (\<lambda>n. spec_iterate rate (n + 1)) [i + 1..<Iterations]"
      using "1.hyps" True "1.prems" by simp
    have tk: "take (i + 1) (series[i := ?x']) = take i series @ [?x']"
      using True "1.prems" by (simp add: take_Suc_conv_app_nth)
    have up: "[i..<Iterations] = i # [i + 1..<Iterations]"
      using True by (simp add: upt_conv_Cons)
    show ?thesis
      by (simp only: step ih tk up list.map append_assoc append_Cons append_Nil)
  next
    case False
    with "1.prems" have "i = Iterations" by simp
    then show ?thesis
      using "1.prems" by (simp add: logisticMap_loop.simps [of rate Iterations])
  qed
qed

lemma logisticMap_iterates:
  "logisticMap rate = map (\<lambda>n. spec_iterate rate (n + 1)) [0..<Iterations]"
  unfolding logisticMap_def
  using logisticMap_loop_spec [of 0 "replicate Iterations (Finite False 0)" rate]
  by simp

text \<open>
  C1. For every rate, \<^verbatim>\<open>logisticMap\<close> returns the 100 elements \<open>s[n] = x(n+1)\<close>,
  \<open>n = 0..99\<close>, of the recurrence \<open>x0 = 0.1\<close>, \<open>x(n+1) = r * x(n) * (1 - x(n))\<close>:
  the series starts at the first iterate and the seed \<open>x0\<close> has no position in it.
\<close>

theorem logisticMap_is_recurrence:
  "logisticMap rate = map (\<lambda>n. spec_iterate rate (n + 1)) [0..<100] \<and>
   length (logisticMap rate) = 100 \<and>
   spec_iterate rate 0 = Start \<and>
   logisticMap rate ! 0 = spec_iterate rate 1"
proof -
  have eq: "logisticMap rate = map (\<lambda>n. spec_iterate rate (n + 1)) [0..<100]"
    using logisticMap_iterates [of rate] by (simp only: Iterations_def)
  have len: "length (map (\<lambda>n. spec_iterate rate (n + 1)) [0..<100]) = 100"
    by (simp only: length_map length_upt diff_zero)
  have "(0::nat) < 100" by simp
  then have first: "map (\<lambda>n. spec_iterate rate (n + 1)) [0..<100] ! 0 = spec_iterate rate 1"
    by (simp only: nth_map length_upt diff_zero nth_upt add_0)
  show ?thesis
    by (simp only: eq len first spec_iterate.simps simp_thms)
qed

section \<open>Rate resolution\<close>

lemma getRate_empty:
  "Values_Get (Query r) ''rate'' = [] \<Longrightarrow> getRate L r = ParseFloat L ''3.5''"
  by (simp add: getRate_def DefaultRate_def)

lemma getRate_nonempty:
  "Values_Get (Query r) ''rate'' \<noteq> [] \<Longrightarrow>
   getRate L r = ParseFloat L (Values_Get (Query r) ''rate'')"
  by (simp add: getRate_def)

lemma Values_Get_absent: "map_of q key = None \<Longrightarrow> Values_Get q key = []"
  by (simp add: Values_Get_def)


lemma getRate_cong:
  "Values_Get (Query r) ''rate'' = Values_Get (Query r') ''rate'' \<Longrightarrow> getRate L r = getRate L r'"
  by (simp add: getRate_def)

lemma serve_cong:
  assumes "getRate L r = getRate L r'" "Method r = Method r'" "Path r = Path r'"
  shows "serve L r = serve L r'"
  using assms
  by (simp add: serve_def rootHandler_def chartHandler_def get_def getChart_def)

lemma parseDecimal_default: "parseDecimal ''3.5'' = Inr (Finite False (7 / 2))"
  by code_simp

lemma parseDecimal_empty: "parseDecimal '''' = Inl ErrSyntax"
  by code_simp

lemma parseDecimal_abc: "parseDecimal ''abc'' = Inl ErrSyntax"
  by code_simp

section \<open>The response writer\<close>

lemma status_code_WriteHeader_new [simp]:
  "status_code (WriteHeader code (Header_Set k v newResponseWriter)) = code"
  by (simp add: status_code_def WriteHeader_def Header_Set_def newResponseWriter_def)

lemma body_WriteHeader_new [simp]:
  "body (WriteHeader code (Header_Set k v newResponseWriter)) = []"
  by (simp add: WriteHeader_def Header_Set_def newResponseWriter_def)

lemma header_WriteHeader_new [simp]:
  "header (WriteHeader code (Header_Set k v newResponseWriter)) k = Some v"
  by (simp add: WriteHeader_def Header_Set_def newResponseWriter_def)

lemma status_code_Write_new [simp]:
  "status_code (Write bytes (Header_Set k v newResponseWriter)) = 200"
  by (simp add: status_code_def Write_def Header_Set_def newResponseWriter_def Let_def)

lemma body_Write_new [simp]:
  "body (Write bytes (Header_Set k v newResponseWriter)) = bytes"
  by (simp add: Write_def Header_Set_def newResponseWriter_def Let_def)

lemma foldl_Write_body:
  "body (foldl (\<lambda>w bytes. Write bytes w) w chunks) = body w @ concat chunks"
  by (induction chunks arbitrary: w) (simp_all add: Write_def Let_def)

lemma foldl_Write_status:
  "status w = None \<Longrightarrow>
   status_code (foldl (\<lambda>w bytes. Write bytes w) w chunks) = 200"
proof (cases chunks)
  case Nil
  assume "status w = None"
  with Nil show ?thesis by (simp add: status_code_def)
next
  case (Cons c cs)
  have keep: "status v = Some 200 \<Longrightarrow>
              status (foldl (\<lambda>w bytes. Write bytes w) v ds) = Some 200" for v ds
    by (induction ds arbitrary: v) (simp_all add: Write_def Let_def)
  assume "status w = None"
  then have "status (Write c w) = Some 200"
    by (simp add: Write_def Let_def)
  from keep [OF this] Cons show ?thesis
    by (simp add: status_code_def)
qed

section \<open>Method and rate errors\<close>

text \<open>
  C8. A request to \<^verbatim>\<open>/\<close> or \<^verbatim>\<open>/chart\<close> whose method is not GET is answered 405 with the
  header \<^verbatim>\<open>Allow: GET\<close>, an empty body and no call of the pipeline.
\<close>

theorem method_not_allowed:
  assumes "Method r \<noteq> ''GET''" and "Path r = ''/'' \<or> Path r = ''/chart''"
  shows "case serve L r of
           Inl p \<Rightarrow> False
         | Inr (w, calls) \<Rightarrow>
             status_code w = 405 \<and> header w ''Allow'' = Some ''GET'' \<and>
             body w = [] \<and> calls = []"
  using assms by (auto simp: serve_def rootHandler_def chartHandler_def)

theorem method_not_allowed_witness:
  "Method (testRequest ''POST'' ''/chart'' []) \<noteq> ''GET'' \<and>
   Path (testRequest ''POST'' ''/chart'' []) = ''/chart'' \<and>
   Method (testRequest ''POST'' ''/'' [(''rate'', ''3.5'')]) \<noteq> ''GET'' \<and>
   Path (testRequest ''POST'' ''/'' [(''rate'', ''3.5'')]) = ''/'' \<and>
   (case serve testLibs (testRequest ''POST'' ''/chart'' []) of
      Inl p \<Rightarrow> False
    | Inr (w, calls) \<Rightarrow>
        status_code w = 405 \<and> header w ''Allow'' = Some ''GET'' \<and> body w = [] \<and> calls = []) \<and>
   (case serve testLibs (testRequest ''POST'' ''/'' [(''rate'', ''3.5'')]) of
      Inl p \<Rightarrow> False
    | Inr (w, calls) \<Rightarrow>
        status_code w = 405 \<and> header w ''Allow'' = Some ''GET'' \<and> body w = [] \<and> calls = [])"
  using method_not_allowed [of "testRequest ''POST'' ''/chart'' []" testLibs]
        method_not_allowed [of "testRequest ''POST'' ''/'' [(''rate'', ''3.5'')]" testLibs]
  by (simp add: testRequest_def)

text \<open>
  C4, amended. On both endpoints, when the first value of the query parameter \<open>rate\<close> is
  not empty and \<^verbatim>\<open>ParseFloat\<close> rejects it, a GET request is answered 400 with an empty
  body, and neither function of the pipeline is called.
\<close>

theorem unparseable_rate_is_400:
  assumes "Method r = ''GET''" and "Path r = ''/'' \<or> Path r = ''/chart''"
    and "Values_Get (Query r) ''rate'' \<noteq> []"
    and "ParseFloat L (Values_Get (Query r) ''rate'') = Inl e"
  shows "case serve L r of
           Inl p \<Rightarrow> False
         | Inr (w, calls) \<Rightarrow> status_code w = 400 \<and> body w = [] \<and> calls = []"
  using assms getRate_nonempty [of r L]
  by (auto simp: serve_def rootHandler_def chartHandler_def get_def getChart_def)

theorem unparseable_rate_is_400_witness:
  "Method (testRequest ''GET'' ''/'' [(''rate'', ''abc'')]) = ''GET'' \<and>
   Path (testRequest ''GET'' ''/'' [(''rate'', ''abc'')]) = ''/'' \<and>
   Values_Get (Query (testRequest ''GET'' ''/'' [(''rate'', ''abc'')])) ''rate'' \<noteq> [] \<and>
   ParseFloat testLibs (Values_Get (Query (testRequest ''GET'' ''/'' [(''rate'', ''abc'')])) ''rate'')
     = Inl ErrSyntax \<and>
   (case serve testLibs (testRequest ''GET'' ''/'' [(''rate'', ''abc'')]) of
      Inl p \<Rightarrow> False
    | Inr (w, calls) \<Rightarrow> status_code w = 400 \<and> body w = [] \<and> calls = [])"
proof -
  let ?r = "testRequest ''GET'' ''/'' [(''rate'', ''abc'')]"
  have v: "Values_Get (Query ?r) ''rate'' = ''abc''"
    by (simp add: testRequest_def Values_Get_def)
  have p: "ParseFloat testLibs (Values_Get (Query ?r) ''rate'') = Inl ErrSyntax"
    by (simp only: v) (simp add: testLibs_def parseDecimal_abc)
  have m: "Method ?r = ''GET''" and q: "Path ?r = ''/'' \<or> Path ?r = ''/chart''"
    by (simp_all add: testRequest_def)
  have n: "Values_Get (Query ?r) ''rate'' \<noteq> []"
    by (simp add: v)
  from unparseable_rate_is_400 [OF m q n p] m n p show ?thesis
    by (simp add: testRequest_def)
qed

section \<open>The spectral transform stores the real parts\<close>

lemma output_loop_length:
  "output_loop frequencies i out = Inr res \<Longrightarrow> length res = length out"
proof (induction frequencies i out rule: output_loop.induct)
  case (1 frequencies i out)
  show ?case
  proof (cases "i < length frequencies \<and> i < length out")
    case True
    with "1.prems" have "output_loop frequencies (i + 1) (out[i := fst (frequencies ! i)]) = Inr res"
      by (simp add: output_loop.simps [of frequencies i])
    with "1.IH" True show ?thesis by simp
  next
    case False
    with "1.prems" show ?thesis
      by (auto simp: output_loop.simps [of frequencies i] split: if_splits)
  qed
qed

lemma output_loop_stores:
  "i \<le> length frequencies \<Longrightarrow> length frequencies \<le> length out \<Longrightarrow>
   output_loop frequencies i out =
     Inr (take i out @ map fst (drop i frequencies) @ drop (length frequencies) out)"
proof (induction frequencies i out rule: output_loop.induct)
  case (1 frequencies i out)
  show ?case
  proof (cases "i < length frequencies")
    case True
    let ?v = "fst (frequencies ! i)"
    from True "1.prems" have io: "i < length out" by simp
    have step: "output_loop frequencies i out = output_loop frequencies (i + 1) (out[i := ?v])"
      using True io by (simp add: output_loop.simps [of frequencies i])
    have ih: "output_loop frequencies (i + 1) (out[i := ?v]) =
              Inr (take (i + 1) (out[i := ?v]) @ map fst (drop (i + 1) frequencies) @
                   drop (length frequencies) (out[i := ?v]))"
      using "1.IH" [OF True io] True "1.prems" by simp
    have tk: "take (i + 1) (out[i := ?v]) = take i out @ [?v]"
      using io by (simp add: take_Suc_conv_app_nth)
    have dr: "drop (length frequencies) (out[i := ?v]) = drop (length frequencies) out"
      using True by simp
    have mp: "map fst (drop i frequencies) = ?v # map fst (drop (i + 1) frequencies)"
      using True by (simp add: Cons_nth_drop_Suc [symmetric])
    show ?thesis
      by (simp only: step ih tk dr mp append_assoc append_Cons append_Nil)
  next
    case False
    with "1.prems" have "i = length frequencies" by simp
    then show ?thesis
      by (simp add: output_loop.simps [of frequencies "length frequencies"])
  qed
qed

lemma output_loop_panics:
  "i \<le> length out \<Longrightarrow> length out < length frequencies \<Longrightarrow>
   output_loop frequencies i out = Inl IndexOutOfRange"
proof (induction frequencies i out rule: output_loop.induct)
  case (1 frequencies i out)
  show ?case
  proof (cases "i < length out")
    case True
    with "1.prems" have lt: "i < length frequencies" by simp
    have "output_loop frequencies i out =
          output_loop frequencies (i + 1) (out[i := fst (frequencies ! i)])"
      using True lt by (simp add: output_loop.simps [of frequencies i])
    also have "\<dots> = Inl IndexOutOfRange"
      using "1.IH" [OF lt True] True "1.prems" by simp
    finally show ?thesis .
  next
    case False
    with "1.prems" have "i = length out" by simp
    with "1.prems" show ?thesis
      by (simp add: output_loop.simps [of frequencies "length out"])
  qed
qed

lemma frequencyTransform_length:
  "frequencyTransform L series = Inr fs \<Longrightarrow> length fs = 100"
  using output_loop_length [of "FFT L (map Rect0 series)" 0 "replicate Iterations (Finite False 0)" fs]
  by (simp add: frequencyTransform_def Let_def Iterations_def)

lemma frequencyTransform_result:
  "frequencyTransform L series =
     (if length (FFT L (map Rect0 series)) \<le> 100
      then Inr (map fst (FFT L (map Rect0 series)) @
                replicate (100 - length (FFT L (map Rect0 series))) (Finite False 0))
      else Inl IndexOutOfRange)"
proof (cases "length (FFT L (map Rect0 series)) \<le> 100")
  case True
  then show ?thesis
    using output_loop_stores [of 0 "FFT L (map Rect0 series)" "replicate Iterations (Finite False 0)"]
    by (simp add: frequencyTransform_def Let_def Iterations_def)
next
  case False
  then show ?thesis
    using output_loop_panics [of 0 "replicate Iterations (Finite False 0)" "FFT L (map Rect0 series)"]
    by (simp add: frequencyTransform_def Let_def Iterations_def)
qed

lemma logisticMap_length: "length (logisticMap rate) = 100"
  by (simp add: logisticMap_def logisticMap_loop_length Iterations_def)

lemma frequencyTransform_testLibs:
  "length series = 100 \<Longrightarrow> frequencyTransform testLibs series = Inr (map fst (map Rect0 series))"
  by (simp add: frequencyTransform_result testLibs_def)

section \<open>The handlers on a rate that parses\<close>

lemma get_result:
  assumes "getRate L r = Inr rate" and "frequencyTransform L (logisticMap rate) = Inr fs"
  shows "get L newResponseWriter r =
           Inr (case Marshal L \<lparr>Time = logisticMap rate, Frequency = fs\<rparr> of
                  None \<Rightarrow> WriteHeader 500 (Header_Set ''Content-Type'' ''application/json'' newResponseWriter)
                | Some bytes \<Rightarrow> Write bytes (Header_Set ''Content-Type'' ''application/json'' newResponseWriter),
                [Call_logisticMap rate, Call_frequencyTransform (logisticMap rate),
                 Call_Marshal \<lparr>Time = logisticMap rate, Frequency = fs\<rparr>])"
  using assms by (simp add: get_def Let_def split: option.splits)

lemma get_panic:
  assumes "getRate L r = Inr rate" and "frequencyTransform L (logisticMap rate) = Inl p"
  shows "get L w r = Inl p"
  using assms by (simp add: get_def Let_def)

lemma getChart_panic:
  assumes "getRate L r = Inr rate" and "frequencyTransform L (logisticMap rate) = Inl p"
  shows "getChart L w r = Inl p"
  using assms by (simp add: getChart_def Let_def)

lemma getChart_result:
  assumes "getRate L r = Inr rate" and "frequencyTransform L (logisticMap rate) = Inr fs"
  shows "\<exists>w. getChart L newResponseWriter r =
           Inr (w, [Call_logisticMap rate, Call_frequencyTransform (logisticMap rate),
                    Call_Render (lineChart (xSeries (1 / 100)) (logisticMap rate)),
                    Call_Render (lineChart (xSeries (1 / 200)) fs),
                    Call_Execute (chart_context L rate fs)]) \<and>
           (status_code w = 200 \<or> status_code w = 500) \<and>
           (\<not> snd (Execute L (chart_context L rate fs)) \<longrightarrow>
              status_code w = 200 \<and> body w = concat (fst (Execute L (chart_context L rate fs))))"
proof -
  let ?w0 = "Header_Set ''Content-Type'' ''text/html'' newResponseWriter"
  obtain chunks failed where ex: "Execute L (chart_context L rate fs) = (chunks, failed)"
    by (cases "Execute L (chart_context L rate fs)")
  let ?w1 = "foldl (\<lambda>w bytes. Write bytes w) ?w0 chunks"
  let ?w2 = "if failed then WriteHeader 500 ?w1 else ?w1"
  have s0: "status ?w0 = None" and b0: "body ?w0 = []"
    by (simp_all add: Header_Set_def newResponseWriter_def)
  have s1: "status_code ?w1 = 200"
    by (rule foldl_Write_status [OF s0])
  have b1: "body ?w1 = concat chunks"
    by (simp add: foldl_Write_body b0)
  have s2: "status_code ?w2 = 200 \<or> status_code ?w2 = 500"
    using s1 by (auto simp: WriteHeader_def status_code_def split: option.splits)
  have res: "getChart L newResponseWriter r =
           Inr (?w2, [Call_logisticMap rate, Call_frequencyTransform (logisticMap rate),
                    Call_Render (lineChart (xSeries (1 / 100)) (logisticMap rate)),
                    Call_Render (lineChart (xSeries (1 / 200)) fs),
                    Call_Execute (chart_context L rate fs)])"
    using assms ex by (simp add: getChart_def Let_def chart_context_def)
  show ?thesis
    using res s1 s2 b1 ex by (intro exI [of _ ?w2]) auto
qed

lemma serve_on_rate:
  assumes "Method r = ''GET''" and "getRate L r = Inr rate"
  shows "case serve L r of
           Inl p \<Rightarrow> frequencyTransform L (logisticMap rate) = Inl p
         | Inr (w, calls) \<Rightarrow>
             take 2 calls = [Call_logisticMap rate, Call_frequencyTransform (logisticMap rate)] \<and>
             (status_code w = 200 \<or> status_code w = 500) \<and>
             map length (output_arrays calls) = [100, 100] \<and>
             (Path r \<noteq> ''/chart'' \<and> marshal_ok L rate \<longrightarrow> status_code w = 200) \<and>
             (Path r = ''/chart'' \<and> execute_ok L rate \<longrightarrow> status_code w = 200)"
proof (cases "frequencyTransform L (logisticMap rate)")
  case (Inl p)
  then show ?thesis
    using assms by (simp add: serve_def rootHandler_def chartHandler_def get_panic getChart_panic)
next
  case (Inr fs)
  have len: "length (logisticMap rate) = 100" "length fs = 100"
    using Inr by (simp_all add: logisticMap_length frequencyTransform_length)
  show ?thesis
  proof (cases "Path r = ''/chart''")
    case True
    from getChart_result [OF assms(2) Inr] obtain w where
      w: "getChart L newResponseWriter r =
           Inr (w, [Call_logisticMap rate, Call_frequencyTransform (logisticMap rate),
                    Call_Render (lineChart (xSeries (1 / 100)) (logisticMap rate)),
                    Call_Render (lineChart (xSeries (1 / 200)) fs),
                    Call_Execute (chart_context L rate fs)])"
      and st: "status_code w = 200 \<or> status_code w = 500"
      and ok: "\<not> snd (Execute L (chart_context L rate fs)) \<longrightarrow> status_code w = 200"
      by blast
    show ?thesis
      using True assms(1) w st ok Inr len
      by (simp add: serve_def chartHandler_def output_arrays_def lineChart_def execute_ok_def)
  next
    case False
    show ?thesis
      using False assms Inr len get_result [OF assms(2) Inr]
      by (auto simp: serve_def rootHandler_def output_arrays_def marshal_ok_def
               split: option.splits)
  qed
qed

lemma serve_testLibs_default:
  assumes "Method r = ''GET''" and "getRate testLibs r = Inr rate"
  shows "case serve testLibs r of
           Inl p \<Rightarrow> False
         | Inr (w, calls) \<Rightarrow>
             status_code w = 200 \<and>
             take 2 calls = [Call_logisticMap rate, Call_frequencyTransform (logisticMap rate)] \<and>
             map length (output_arrays calls) = [100, 100]"
proof -
  have ft: "frequencyTransform testLibs (logisticMap rate) = Inr (map fst (map Rect0 (logisticMap rate)))"
    by (rule frequencyTransform_testLibs [OF logisticMap_length])
  have m: "marshal_ok testLibs rate"
    by (simp add: marshal_ok_def ft) (simp add: testLibs_def)
  have e: "execute_ok testLibs rate"
    by (simp add: execute_ok_def ft) (simp add: testLibs_def)
  show ?thesis
    using serve_on_rate [OF assms] m e ft
    by (cases "serve testLibs r") (auto split: prod.splits)
qed

section \<open>The default rate\<close>

text \<open>
  C4 as stated fails: a GET request to \<^verbatim>\<open>/?rate=\<close> carries the parameter \<open>rate\<close>, its value
  (the empty string) does not parse, and the answer is 200 after a run of the pipeline.
  And a POST request to \<^verbatim>\<open>/chart?rate=abc\<close> is answered 405: the method is checked
  before the rate.
\<close>

theorem empty_rate_is_not_400:
  "map_of (Query (testRequest ''GET'' ''/'' [(''rate'', '''')])) ''rate'' = Some '''' \<and>
   ParseFloat testLibs '''' = Inl ErrSyntax \<and>
   (case serve testLibs (testRequest ''GET'' ''/'' [(''rate'', '''')]) of
      Inl p \<Rightarrow> False
    | Inr (w, calls) \<Rightarrow>
        status_code w = 200 \<and>
        take 2 calls = [Call_logisticMap (Finite False (7 / 2)),
                        Call_frequencyTransform (logisticMap (Finite False (7 / 2)))]) \<and>
   ParseFloat testLibs ''abc'' = Inl ErrSyntax \<and>
   (case serve testLibs (testRequest ''POST'' ''/chart'' [(''rate'', ''abc'')]) of
      Inl p \<Rightarrow> False
    | Inr (w, calls) \<Rightarrow> status_code w = 405)"
proof -
  let ?r = "testRequest ''GET'' ''/'' [(''rate'', '''')]"
  have g: "getRate testLibs ?r = Inr (Finite False (7 / 2))"
    by (simp add: getRate_def testRequest_def Values_Get_def DefaultRate_def testLibs_def
                  parseDecimal_default)
  have m: "Method ?r = ''GET''"
    by (simp add: testRequest_def)
  have p: "ParseFloat testLibs '''' = Inl ErrSyntax"
    by (simp add: testLibs_def parseDecimal_empty)
  have q: "map_of (Query ?r) ''rate'' = Some ''''"
    by (simp add: testRequest_def)
  have get: "case serve testLibs ?r of
      Inl p \<Rightarrow> False
    | Inr (w, calls) \<Rightarrow>
        status_code w = 200 \<and>
        take 2 calls = [Call_logisticMap (Finite False (7 / 2)),
                        Call_frequencyTransform (logisticMap (Finite False (7 / 2)))]"
    using serve_testLibs_default [OF m g]
    by (cases "serve testLibs ?r") (auto split: prod.splits)
  have p': "ParseFloat testLibs ''abc'' = Inl ErrSyntax"
    by (simp add: testLibs_def parseDecimal_abc)
  have post: "case serve testLibs (testRequest ''POST'' ''/chart'' [(''rate'', ''abc'')]) of
      Inl p \<Rightarrow> False
    | Inr (w, calls) \<Rightarrow> status_code w = 405"
    by (simp add: serve_def chartHandler_def testRequest_def)
  show ?thesis
    using p q get p' post by (simp only: simp_thms)
qed

text \<open>
  C5. When the query has no parameter \<open>rate\<close>, rate resolution parses the default literal
  \<^verbatim>\<open>3.5\<close>: it resolves 3.5, and both endpoints answer as they answer the same request with
  \<^verbatim>\<open>rate=3.5\<close>.
\<close>

theorem absent_rate_is_default:
  assumes "map_of (Query r) ''rate'' = None"
  shows "DefaultRate = ''3.5'' \<and>
         getRate L r = ParseFloat L ''3.5'' \<and>
         (ParseFloat L ''3.5'' = Inr (Finite False (7 / 2)) \<longrightarrow>
            getRate L r = Inr (Finite False (7 / 2))) \<and>
         serve L r = serve L (r\<lparr>Query := (''rate'', ''3.5'') # Query r\<rparr>)"
proof -
  have g: "getRate L r = ParseFloat L ''3.5''"
    by (rule getRate_empty [OF Values_Get_absent [OF assms]])
  have g': "getRate L (r\<lparr>Query := (''rate'', ''3.5'') # Query r\<rparr>) = ParseFloat L ''3.5''"
    by (simp add: getRate_def Values_Get_def)
  have s: "serve L r = serve L (r\<lparr>Query := (''rate'', ''3.5'') # Query r\<rparr>)"
    by (rule serve_cong) (simp_all add: g g')
  show ?thesis
    using g s by (simp add: DefaultRate_def)
qed

theorem absent_rate_is_default_witness:
  "map_of (Query (testRequest ''GET'' ''/chart'' [])) ''rate'' = None \<and>
   map_of (Query (testRequest ''GET'' ''/'' [(''seed'', ''1'')])) ''rate'' = None \<and>
   getRate testLibs (testRequest ''GET'' ''/chart'' []) = Inr (Finite False (7 / 2)) \<and>
   getRate testLibs (testRequest ''GET'' ''/'' [(''seed'', ''1'')]) = Inr (Finite False (7 / 2)) \<and>
   serve testLibs (testRequest ''GET'' ''/chart'' []) =
     serve testLibs (testRequest ''GET'' ''/chart'' [(''rate'', ''3.5'')])"
proof -
  have a: "map_of (Query (testRequest ''GET'' ''/chart'' [])) ''rate'' = None"
    and b: "map_of (Query (testRequest ''GET'' ''/'' [(''seed'', ''1'')])) ''rate'' = None"
    by (simp_all add: testRequest_def)
  have p: "ParseFloat testLibs ''3.5'' = Inr (Finite False (7 / 2))"
    by (simp add: testLibs_def parseDecimal_default)
  from absent_rate_is_default [OF a, of testLibs] absent_rate_is_default [OF b, of testLibs] a b p
  show ?thesis
    by (simp add: testRequest_def)
qed



lemma serve_rate_error:
  assumes "Method r = ''GET''" and "getRate L r = Inl e"
  shows "\<exists>w. serve L r = Inr (w, []) \<and> status_code w = 400 \<and> body w = []"
  using assms by (simp add: serve_def rootHandler_def chartHandler_def get_def getChart_def)

lemma serve_not_get:
  assumes "Method r \<noteq> ''GET''"
  shows "\<exists>w. serve L r = Inr (w, []) \<and> status_code w = 405"
  using assms by (simp add: serve_def rootHandler_def chartHandler_def)

section \<open>What rate resolution accepts\<close>




section \<open>The length of the output arrays\<close>

text \<open>
  C7. For every rate the time series has 100 elements and so has the frequency series
  whenever the transform returns. On both endpoints, a response with status 200 comes
  with exactly two output arrays, handed to the encoder or to the chart renderer, of
  100 elements each; the same holds for every response made after a run of the pipeline.
\<close>

theorem output_arrays_have_100_elements:
  "length (logisticMap rate) = 100 \<and>
   (frequencyTransform L series = Inr fs \<longrightarrow> length fs = 100) \<and>
   (serve L r = Inr (w, calls) \<and> (status_code w = 200 \<or> calls \<noteq> []) \<longrightarrow>
      map length (output_arrays calls) = [100, 100])"
proof -
  have arrays: "map length (output_arrays calls) = [100, 100]"
    if s: "serve L r = Inr (w, calls)" and ok: "status_code w = 200 \<or> calls \<noteq> []"
  proof (cases "Method r = ''GET''")
    case True
    show ?thesis
    proof (cases "getRate L r")
      case (Inl e)
      from serve_rate_error [OF True Inl] s ok show ?thesis by auto
    next
      case (Inr rate')
      from serve_on_rate [OF True Inr] s show ?thesis by simp
    qed
  next
    case False
    from serve_not_get [OF False, of L] s ok show ?thesis by auto
  qed
  show ?thesis
    using arrays by (auto simp: logisticMap_length frequencyTransform_length)
qed

theorem output_arrays_have_100_elements_witness:
  "(case serve testLibs (testRequest ''GET'' ''/'' [(''rate'', ''3.5'')]) of
      Inl p \<Rightarrow> False
    | Inr (w, calls) \<Rightarrow> status_code w = 200 \<and> map length (output_arrays calls) = [100, 100]) \<and>
   (case serve testLibs (testRequest ''GET'' ''/chart'' [(''rate'', ''3.5'')]) of
      Inl p \<Rightarrow> False
    | Inr (w, calls) \<Rightarrow> status_code w = 200 \<and> map length (output_arrays calls) = [100, 100]) \<and>
   (case frequencyTransform testLibs (logisticMap (Finite False (7 / 2))) of
      Inl p \<Rightarrow> False
    | Inr fs \<Rightarrow> length fs = 100)"
proof -
  let ?r1 = "testRequest ''GET'' ''/'' [(''rate'', ''3.5'')]"
  let ?r2 = "testRequest ''GET'' ''/chart'' [(''rate'', ''3.5'')]"
  have m: "Method ?r1 = ''GET''" "Method ?r2 = ''GET''"
    by (simp_all add: testRequest_def)
  have g: "getRate testLibs ?r1 = Inr (Finite False (7 / 2))"
          "getRate testLibs ?r2 = Inr (Finite False (7 / 2))"
    by (simp_all add: getRate_def testRequest_def Values_Get_def testLibs_def parseDecimal_default)
  have one: "case serve testLibs ?r1 of
      Inl p \<Rightarrow> False
    | Inr (w, calls) \<Rightarrow> status_code w = 200 \<and> map length (output_arrays calls) = [100, 100]"
  proof (cases "serve testLibs ?r1")
    case (Inl p)
    with serve_testLibs_default [OF m(1) g(1)] show ?thesis by simp
  next
    case (Inr wc)
    obtain w calls where wc: "wc = (w, calls)" by (cases wc)
    from serve_testLibs_default [OF m(1) g(1)] Inr wc have "status_code w = 200" by simp
    with output_arrays_have_100_elements [of _ testLibs _ _ ?r1 w calls] Inr wc
    show ?thesis by simp
  qed
  have two: "case serve testLibs ?r2 of
      Inl p \<Rightarrow> False
    | Inr (w, calls) \<Rightarrow> status_code w = 200 \<and> map length (output_arrays calls) = [100, 100]"
  proof (cases "serve testLibs ?r2")
    case (Inl p)
    with serve_testLibs_default [OF m(2) g(2)] show ?thesis by simp
  next
    case (Inr wc)
    obtain w calls where wc: "wc = (w, calls)" by (cases wc)
    from serve_testLibs_default [OF m(2) g(2)] Inr wc have "status_code w = 200" by simp
    with output_arrays_have_100_elements [of _ testLibs _ _ ?r2 w calls] Inr wc
    show ?thesis by simp
  qed
  have three: "case frequencyTransform testLibs (logisticMap (Finite False (7 / 2))) of
      Inl p \<Rightarrow> False
    | Inr fs \<Rightarrow> length fs = 100"
    using output_arrays_have_100_elements [of _ testLibs "logisticMap (Finite False (7 / 2))"]
          frequencyTransform_testLibs [OF logisticMap_length, of "Finite False (7 / 2)"]
    by simp
  show ?thesis
    using one two three by (simp only: simp_thms)
qed

section \<open>The series stays in the unit interval\<close>

lemma Start_unit: "is_float64 Start \<and> between 0 1 Start"
  by code_simp

lemma spec_iterate_unit:
  assumes "is_float64 rate" and "between 0 4 rate"
  shows "is_float64 (spec_iterate rate n) \<and> between 0 1 (spec_iterate rate n)"
proof (induction n)
  case 0
  show ?case by (simp add: Start_unit)
next
  case (Suc n)
  then show ?case
    using logistic_step_unit [OF assms, of "spec_iterate rate n"] by simp
qed

lemma logisticMap_unit:
  assumes "is_float64 rate" and "between 0 4 rate"
  shows "\<forall>x \<in> set (logisticMap rate). is_float64 x \<and> between 0 1 x"
  using spec_iterate_unit [OF assms]
  by (auto simp: logisticMap_iterates simp del: spec_iterate.simps)


lemma rate_3_5: "is_float64 (Finite False (7 / 2)) \<and> between 0 4 (Finite False (7 / 2))"
  by code_simp

text \<open>
  C10. For every float64 rate with \<open>0 \<le> rate \<le> 4\<close>, each of the 100 elements of the time
  series is a finite float64 in the closed interval from 0 to 1: every step of the
  iteration, with its three roundings, maps this interval to itself.
\<close>

theorem logisticMap_in_unit_interval:
  assumes "is_float64 rate" and "between 0 4 rate"
  shows "length (logisticMap rate) = 100 \<and>
         (\<forall>x \<in> set (logisticMap rate). is_float64 x \<and> between 0 1 x) \<and>
         (\<forall>x. is_float64 x \<and> between 0 1 x \<longrightarrow>
            is_float64 (fmul (fmul rate x) (fsub (Finite False 1) x)) \<and>
            between 0 1 (fmul (fmul rate x) (fsub (Finite False 1) x)))"
  using logisticMap_unit [OF assms] logistic_step_unit [OF assms]
  by (simp add: logisticMap_length)

theorem logisticMap_in_unit_interval_witness:
  "is_float64 (Finite False (7 / 2)) \<and> between 0 4 (Finite False (7 / 2)) \<and>
   is_float64 (Finite False 4) \<and> between 0 4 (Finite False 4) \<and>
   length (logisticMap (Finite False (7 / 2))) = 100 \<and>
   list_all (between 0 1) (logisticMap (Finite False (7 / 2))) \<and>
   list_all (between 0 1) (logisticMap (Finite False 4)) \<and>
   between 0 1 (logisticMap (Finite False (7 / 2)) ! 0)"
proof -
  have a: "is_float64 (Finite False (7 / 2))" "between 0 4 (Finite False (7 / 2))"
    using rate_3_5 by simp_all
  have b: "is_float64 (Finite False 4) \<and> between 0 4 (Finite False 4)"
    by code_simp
  then have b1: "is_float64 (Finite False 4)" and b2: "between 0 4 (Finite False 4)"
    by simp_all
  note A = logisticMap_in_unit_interval [OF a]
  note B = logisticMap_in_unit_interval [OF b1 b2]
  have len: "length (logisticMap (Finite False (7 / 2))) = 100"
    using A by simp
  have la: "list_all (between 0 1) (logisticMap (Finite False (7 / 2)))"
    using A by (simp add: list_all_iff)
  have lb: "list_all (between 0 1) (logisticMap (Finite False 4))"
    using B by (simp add: list_all_iff)
  have "logisticMap (Finite False (7 / 2)) ! 0 \<in> set (logisticMap (Finite False (7 / 2)))"
    using len by (intro nth_mem) simp
  with A have first: "between 0 1 (logisticMap (Finite False (7 / 2)) ! 0)"
    by blast
  show ?thesis
    using a b len la lb first by (simp only: simp_thms)
qed

section \<open>The complex lift\<close>





end
